theory Spec2Isabelle
  imports Main "HOL-Library.Sublist" "HOL-Library.Monad_Syntax"
begin

section \<open>The masked input of \<open>src/registry/masked-input/masked-input.tsx\<close>\<close>

text \<open>
  The component keeps a mask (a string of placeholders \<open>9\<close>, \<open>a\<close>, \<open>*\<close> and literal
  characters) and formats what the user types against it. A JavaScript string is a
  sequence of code units read by index; it is modelled as a \<open>string\<close> (a list of
  \<open>char\<close>). The three regular expressions of the source only accept ASCII letters and
  digits, every other code unit behaves like any other non-alphanumeric character.
\<close>

subsection \<open>Character classes\<close>

text \<open>The regular expressions \<open>/\d/\<close>, \<open>/[A-Za-z]/\<close> and \<open>/[A-Za-z0-9]/\<close>, tested on one
  character.\<close>

definition isDigit :: "char \<Rightarrow> bool" where
  "isDigit c = (c \<in> set ''0123456789'')"

definition isLetter :: "char \<Rightarrow> bool" where
  "isLetter c = (c \<in> set ''ABCDEFGHIJKLMNOPQRSTUVWXYZabcdefghijklmnopqrstuvwxyz'')"

definition isAlnum :: "char \<Rightarrow> bool" where
  "isAlnum c = (isLetter c \<or> isDigit c)"

text \<open>\<open>['9', 'a', '*'].includes(maskChar)\<close>\<close>

definition isPlaceholder :: "char \<Rightarrow> bool" where
  "isPlaceholder maskChar = (maskChar \<in> set ''9a*'')"

definition charMatchesMask :: "char \<Rightarrow> char \<Rightarrow> bool" where
  "charMatchesMask ch maskChar =
     (if maskChar = CHR ''9'' then isDigit ch
      else if maskChar = CHR ''a'' then isLetter ch
      else if maskChar = CHR ''*'' then isAlnum ch
      else False)"

subsection \<open>Reading a string by index\<close>

text \<open>
  \<open>s[i]\<close>. An index outside the string is the failure \<open>None\<close> of the model (JavaScript
  yields \<open>undefined\<close> there), and every function below that reads a string propagates
  it: a run that returns \<open>Some\<close> has made all its reads inside the strings.
\<close>

definition charAt :: "string \<Rightarrow> nat \<Rightarrow> char option" where
  "charAt s i = (if i < length s then Some (s ! i) else None)"

subsection \<open>\<open>formatToMask\<close>\<close>

text \<open>The object the function returns, and the three variables of its loop.\<close>

record masked_value =
  formatted :: string
  unformatted :: string

record fmt_state = masked_value +
  inputIndex :: nat

text \<open>How one run of the loop body ends: it falls through to \<open>maskIndex++\<close> with the
  variables as updated, or it leaves the loop by \<open>break\<close> (no branch that breaks has
  changed a variable).\<close>

datatype flow = Next fmt_state | Break

text \<open>The body of the \<open>for\<close> loop, at \<open>maskIndex\<close>.\<close>

definition body :: "string \<Rightarrow> string \<Rightarrow> nat \<Rightarrow> fmt_state \<Rightarrow> flow option" where
  "body msk inputValue maskIndex st = do {
     maskChar \<leftarrow> charAt msk maskIndex;
     if isPlaceholder maskChar then
       (if inputIndex st < length inputValue then do {
          ch \<leftarrow> charAt inputValue (inputIndex st);
          if charMatchesMask ch maskChar
          then Some (Next (st\<lparr>formatted := formatted st @ [ch],
                              unformatted := unformatted st @ [ch],
                              inputIndex := inputIndex st + 1\<rparr>))
          else Some (Next st)
        } else Some Break)
     else do {
       typed \<leftarrow> (if inputIndex st < length inputValue
                 then do { c \<leftarrow> charAt inputValue (inputIndex st); Some (c = maskChar) }
                 else Some False);
       if typed
       then Some (Next (st\<lparr>formatted := formatted st @ [maskChar],
                           inputIndex := inputIndex st + 1\<rparr>))
       else if inputIndex st < length inputValue then do {
         let nextMaskIndex = maskIndex + 1;
         ahead \<leftarrow> (if nextMaskIndex < length msk
                   then do { n \<leftarrow> charAt msk nextMaskIndex; Some (isPlaceholder n) }
                   else Some False);
         if ahead then do {
           c \<leftarrow> charAt inputValue (inputIndex st);
           n \<leftarrow> charAt msk nextMaskIndex;
           if charMatchesMask c n
           then Some (Next (st\<lparr>formatted := formatted st @ [maskChar]\<rparr>))
           else Some Break
         } else Some (Next (st\<lparr>formatted := formatted st @ [maskChar]\<rparr>))
       } else Some Break
     }
   }"

text \<open>\<open>for (let maskIndex = ...; maskIndex < mask.length; maskIndex++)\<close>, from
  \<open>maskIndex\<close> on. The mask is the variable \<open>msk\<close> here (\<open>mask\<close> is a constant of the library).\<close>

function loop :: "string \<Rightarrow> string \<Rightarrow> nat \<Rightarrow> fmt_state \<Rightarrow> fmt_state option" where
  "loop msk inputValue maskIndex st =
     (if maskIndex < length msk then
        (case body msk inputValue maskIndex st of
           None \<Rightarrow> None
         | Some Break \<Rightarrow> Some st
         | Some (Next st') \<Rightarrow> loop msk inputValue (maskIndex + 1) st')
      else Some st)"
  by pat_completeness auto
termination
  by (relation "measure (\<lambda>(msk, inputValue, maskIndex, st). length msk - maskIndex)") auto

declare loop.simps [simp del]

definition initial :: fmt_state where
  "initial = \<lparr>formatted = [], unformatted = [], inputIndex = 0\<rparr>"

definition formatToMask :: "string \<Rightarrow> string \<Rightarrow> masked_value option" where
  "formatToMask msk inputValue = do {
     st \<leftarrow> loop msk inputValue 0 initial;
     Some \<lparr>formatted = formatted st, unformatted = unformatted st\<rparr>
   }"

subsection \<open>The loop variables at each mask position\<close>

text \<open>
  \<open>stateAt msk inputValue i\<close> is the value of the three loop variables when the loop
  arrives at \<open>maskIndex = i\<close>: the initial ones at 0, and at \<open>i + 1\<close> what the body at
  \<open>i\<close> leaves when it falls through to \<open>maskIndex++\<close>. It is \<open>None\<close> when the loop has
  left by \<open>break\<close> before, or has ended.
\<close>

primrec stateAt :: "string \<Rightarrow> string \<Rightarrow> nat \<Rightarrow> fmt_state option" where
  "stateAt msk inputValue 0 = Some initial"
| "stateAt msk inputValue (Suc i) =
     (case stateAt msk inputValue i of
        None \<Rightarrow> None
      | Some st \<Rightarrow>
          (if i < length msk then
             (case body msk inputValue i st of
                Some (Next st') \<Rightarrow> Some st'
              | _ \<Rightarrow> None)
           else None))"

subsection \<open>\<open>handleKeyDown\<close>\<close>

record key_event =
  key :: string
  ctrlKey :: bool
  metaKey :: bool
  altKey :: bool
  shiftKey :: bool

definition allowedKeys :: "string list" where
  "allowedKeys = [''Backspace'', ''Delete'', ''ArrowLeft'', ''ArrowRight'', ''Tab'', ''Enter'']"

text \<open>
  The result is \<open>True\<close> when the handler reaches \<open>e.preventDefault()\<close> and \<open>False\<close> when it
  returns before. \<open>/[A-Za-z0-9]/.test(e.key)\<close> is not anchored: it holds as soon as one
  character of the key's name is alphanumeric.
\<close>

definition handleKeyDown :: "key_event \<Rightarrow> bool" where
  "handleKeyDown e =
     (let isModifierKey = ctrlKey e \<or> metaKey e \<or> altKey e \<or> shiftKey e in
      if isModifierKey then False
      else if key e \<in> set allowedKeys then False
      else if list_ex isAlnum (key e) then False
      else True)"

subsection \<open>A run of the loop as a list of events\<close>

text \<open>
  For the proofs, the loop is also read as a recursion over what is left of the mask and
  of the input. Every character appended to \<open>formatted\<close> is one event: a placeholder
  filled with an input character, a literal that the user typed (the input character is
  consumed), or a literal inserted without consuming input. Lemma \<open>loop_walk\<close> below
  proves that the loop and this reading agree; every property is stated on
  \<open>formatToMask\<close>, \<open>loop\<close>, \<open>body\<close> and the loop variables \<open>stateAt\<close>.
\<close>

datatype event = Placed char char | Typed char | Auto char

text \<open>The character an event appends to \<open>formatted\<close>, whether it moves \<open>inputIndex\<close>,
  and the characters appended to \<open>unformatted\<close>.\<close>

fun out :: "event \<Rightarrow> char" where
  "out (Placed m c) = c"
| "out (Typed m) = m"
| "out (Auto m) = m"

fun consumes :: "event \<Rightarrow> bool" where
  "consumes (Placed m c) = True"
| "consumes (Typed m) = True"
| "consumes (Auto m) = False"

fun placed :: "event list \<Rightarrow> string" where
  "placed [] = []"
| "placed (Placed m c # es) = c # placed es"
| "placed (e # es) = placed es"

text \<open>The look-ahead of the literal branch: the next mask symbol is a placeholder that
  refuses the current input character.\<close>

fun stops :: "string \<Rightarrow> char \<Rightarrow> bool" where
  "stops [] c = False"
| "stops (n # ms) c = (isPlaceholder n \<and> \<not> charMatchesMask c n)"

fun walk :: "string \<Rightarrow> string \<Rightarrow> event list" where
  "walk [] inp = []"
| "walk (m # ms) [] = []"
| "walk (m # ms) (c # cs) =
     (if isPlaceholder m then
        (if charMatchesMask c m then Placed m c # walk ms cs else walk ms (c # cs))
      else if c = m then Typed m # walk ms cs
      else if stops ms c then []
      else Auto m # walk ms (c # cs))"

text \<open>The loop variables after the events of a run.\<close>

definition adv :: "fmt_state \<Rightarrow> event list \<Rightarrow> fmt_state" where
  "adv st tr = st\<lparr>formatted := formatted st @ map out tr,
                   unformatted := unformatted st @ placed tr,
                   inputIndex := inputIndex st + length (filter consumes tr)\<rparr>"

subsection \<open>Vocabulary of the properties\<close>


definition placeholderCount :: "string \<Rightarrow> nat" where
  "placeholderCount msk = length (filter isPlaceholder msk)"

text \<open>
  The mask position \<open>i\<close> refuses a character: the loop arrives there, the mask symbol is
  a placeholder, there is input left, and the current input character is not of the
  placeholder's class (the branch of the source that skips the mask position).
\<close>

definition refuses :: "string \<Rightarrow> string \<Rightarrow> nat \<Rightarrow> bool" where
  "refuses msk inputValue i =
     (case stateAt msk inputValue i of
        None \<Rightarrow> False
      | Some st \<Rightarrow> i < length msk \<and> isPlaceholder (msk ! i) \<and>
          inputIndex st < length inputValue \<and>
          \<not> charMatchesMask (inputValue ! inputIndex st) (msk ! i))"

text \<open>The mask symbols of the positions below \<open>n\<close> that did not refuse a character, in
  order.\<close>

definition kept :: "string \<Rightarrow> string \<Rightarrow> nat \<Rightarrow> string" where
  "kept msk inputValue n =
     map ((!) msk) (filter (\<lambda>i. \<not> refuses msk inputValue i) [0..<n])"

text \<open>A character of \<open>formatted\<close> is right for a mask symbol: the literal itself for a
  literal, a character of the class for a placeholder.\<close>

definition agrees :: "char \<Rightarrow> char \<Rightarrow> bool" where
  "agrees f k = (if isPlaceholder k then charMatchesMask f k else f = k)"

section \<open>Properties\<close>

subsection \<open>The loop and its events\<close>

lemma body_eq:
  assumes "maskIndex < length msk"
  shows "body msk inputValue maskIndex st = Some
     (let m = msk ! maskIndex; k = inputIndex st in
      if isPlaceholder m then
        (if k < length inputValue then
           (if charMatchesMask (inputValue ! k) m
            then Next (st\<lparr>formatted := formatted st @ [inputValue ! k],
                         unformatted := unformatted st @ [inputValue ! k],
                         inputIndex := k + 1\<rparr>)
            else Next st)
         else Break)
      else if k < length inputValue \<and> inputValue ! k = m
        then Next (st\<lparr>formatted := formatted st @ [m], inputIndex := k + 1\<rparr>)
      else if k < length inputValue then
        (if maskIndex + 1 < length msk \<and> isPlaceholder (msk ! (maskIndex + 1)) then
           (if charMatchesMask (inputValue ! k) (msk ! (maskIndex + 1))
            then Next (st\<lparr>formatted := formatted st @ [m]\<rparr>)
            else Break)
         else Next (st\<lparr>formatted := formatted st @ [m]\<rparr>))
      else Break)"
  using assms by (simp add: body_def charAt_def Let_def)

lemma stops_drop:
  "stops (drop (Suc i) msk) c =
     (Suc i < length msk \<and> isPlaceholder (msk ! Suc i) \<and> \<not> charMatchesMask c (msk ! Suc i))"
proof (cases "Suc i < length msk")
  case True
  then have "drop (Suc i) msk = msk ! Suc i # drop (Suc (Suc i)) msk"
    by (simp add: Cons_nth_drop_Suc)
  with True show ?thesis by simp
next
  case False
  then show ?thesis by simp
qed

lemma adv_Nil: "adv st [] = st"
  by (simp add: adv_def)

lemma adv_Placed:
  "adv st (Placed m c # tr) =
     adv (st\<lparr>formatted := formatted st @ [c], unformatted := unformatted st @ [c],
             inputIndex := inputIndex st + 1\<rparr>) tr"
  by (simp add: adv_def)

lemma adv_Typed:
  "adv st (Typed m # tr) =
     adv (st\<lparr>formatted := formatted st @ [m], inputIndex := inputIndex st + 1\<rparr>) tr"
  by (simp add: adv_def)

lemma adv_Auto:
  "adv st (Auto m # tr) = adv (st\<lparr>formatted := formatted st @ [m]\<rparr>) tr"
  by (simp add: adv_def)

lemma loop_Next:
  "maskIndex < length msk \<Longrightarrow> body msk inputValue maskIndex st = Some (Next st') \<Longrightarrow>
     loop msk inputValue maskIndex st = loop msk inputValue (maskIndex + 1) st'"
  by (subst loop.simps) simp

lemma loop_Break:
  "maskIndex < length msk \<Longrightarrow> body msk inputValue maskIndex st = Some Break \<Longrightarrow>
     loop msk inputValue maskIndex st = Some st"
  by (subst loop.simps) simp

lemma loop_end:
  "\<not> maskIndex < length msk \<Longrightarrow> loop msk inputValue maskIndex st = Some st"
  by (subst loop.simps) simp

lemma loop_walk:
  "loop msk inputValue maskIndex st =
     Some (adv st (walk (drop maskIndex msk) (drop (inputIndex st) inputValue)))"
proof (induction msk inputValue maskIndex st rule: loop.induct)
  case (1 msk inputValue maskIndex st)
  define m where "m = msk ! maskIndex"
  define k where "k = inputIndex st"
  define ms where "ms = drop (Suc maskIndex) msk"
  show ?case
  proof (cases "maskIndex < length msk")
    case False
    then show ?thesis by (simp add: loop_end adv_Nil)
  next
    case inm: True
    then have dm: "drop maskIndex msk = m # ms"
      by (simp add: Cons_nth_drop_Suc m_def ms_def)
    note B = body_eq [OF inm, of inputValue st, unfolded Let_def, folded m_def k_def]
    show ?thesis
    proof (cases "k < length inputValue")
      case False
      then have "body msk inputValue maskIndex st = Some Break"
        by (simp add: B)
      from loop_Break [OF inm this] False show ?thesis
        by (simp add: dm adv_Nil k_def)
    next
      case ini: True
      define c where "c = inputValue ! k"
      define cs where "cs = drop (Suc k) inputValue"
      from ini have di: "drop (inputIndex st) inputValue = c # cs"
        by (simp add: Cons_nth_drop_Suc c_def cs_def k_def)
      note IH = "1.IH" [OF inm]
      note B' = B [folded c_def]
      consider (place) "isPlaceholder m" "charMatchesMask c m"
        | (skip) "isPlaceholder m" "\<not> charMatchesMask c m"
        | (typed) "\<not> isPlaceholder m" "c = m"
        | (stop) "\<not> isPlaceholder m" "c \<noteq> m" "stops ms c"
        | (auto) "\<not> isPlaceholder m" "c \<noteq> m" "\<not> stops ms c"
        by blast
      then show ?thesis
      proof cases
        case place
        let ?st = "st\<lparr>formatted := formatted st @ [c], unformatted := unformatted st @ [c],
                      inputIndex := k + 1\<rparr>"
        have b: "body msk inputValue maskIndex st = Some (Next ?st)"
          using place ini by (simp add: B')
        have "loop msk inputValue maskIndex st = loop msk inputValue (maskIndex + 1) ?st"
          by (rule loop_Next [OF inm b])
        also have "\<dots> = Some (adv ?st (walk ms cs))"
          using IH [OF b refl] by (simp add: ms_def cs_def)
        finally show ?thesis
          using place by (simp add: dm di adv_Placed k_def)
      next
        case skip
        have b: "body msk inputValue maskIndex st = Some (Next st)"
          using skip ini by (simp add: B')
        have "loop msk inputValue maskIndex st = loop msk inputValue (maskIndex + 1) st"
          by (rule loop_Next [OF inm b])
        also have "\<dots> = Some (adv st (walk ms (c # cs)))"
          using IH [OF b refl] by (simp add: ms_def di)
        finally show ?thesis
          using skip by (simp add: dm di)
      next
        case typed
        let ?st = "st\<lparr>formatted := formatted st @ [m], inputIndex := k + 1\<rparr>"
        have b: "body msk inputValue maskIndex st = Some (Next ?st)"
          using typed ini by (simp add: B')
        have "loop msk inputValue maskIndex st = loop msk inputValue (maskIndex + 1) ?st"
          by (rule loop_Next [OF inm b])
        also have "\<dots> = Some (adv ?st (walk ms cs))"
          using IH [OF b refl] by (simp add: ms_def cs_def)
        finally show ?thesis
          using typed by (simp add: dm di adv_Typed k_def)
      next
        case stop
        have b: "body msk inputValue maskIndex st = Some Break"
          using stop ini stops_drop [of maskIndex msk c] by (auto simp add: B' ms_def)
        from loop_Break [OF inm b] stop show ?thesis
          by (simp add: dm di adv_Nil)
      next
        case auto
        let ?st = "st\<lparr>formatted := formatted st @ [m]\<rparr>"
        have b: "body msk inputValue maskIndex st = Some (Next ?st)"
          using auto ini stops_drop [of maskIndex msk c] by (auto simp add: B' ms_def)
        have "loop msk inputValue maskIndex st = loop msk inputValue (maskIndex + 1) ?st"
          by (rule loop_Next [OF inm b])
        also have "\<dots> = Some (adv ?st (walk ms (c # cs)))"
          using IH [OF b refl] by (simp add: ms_def di)
        finally show ?thesis
          using auto by (simp add: dm di adv_Auto)
      qed
    qed
  qed
qed


subsection \<open>Facts about the events of a run\<close>

lemma walk_Nil2: "walk ms [] = []"
  by (cases ms) simp_all

lemma loop_initial:
  "loop msk inputValue 0 initial =
     Some \<lparr>formatted = map out (walk msk inputValue),
           unformatted = placed (walk msk inputValue),
           inputIndex = length (filter consumes (walk msk inputValue))\<rparr>"
  using loop_walk [of msk inputValue 0 initial] by (simp add: adv_def initial_def)

lemma formatToMask_walk:
  "formatToMask msk inputValue =
     Some \<lparr>formatted = map out (walk msk inputValue),
           unformatted = placed (walk msk inputValue)\<rparr>"
  by (simp add: formatToMask_def loop_initial)

lemma subseq_placed_out: "subseq (placed tr) (map out tr)"
  by (induction tr rule: placed.induct) auto

lemma placed_walk_subseq: "subseq (placed (walk ms inp)) inp"
  by (induction ms inp rule: walk.induct) auto

lemma consumed_le: "length (filter consumes (walk ms inp)) \<le> length inp"
  by (induction ms inp rule: walk.induct) auto

lemma length_placed_le: "length (placed tr) \<le> length (filter consumes tr)"
  by (induction tr rule: placed.induct) auto

lemma walk_all_consumed:
  "length (filter consumes (walk ms inp)) = length inp \<Longrightarrow> inp \<noteq> [] \<Longrightarrow>
     walk ms inp \<noteq> [] \<and> out (last (walk ms inp)) = last inp"
proof (induction ms inp rule: walk.induct)
  case (3 m ms c cs)
  show ?case
  proof (cases "cs = []")
    case True
    with 3 show ?thesis by (auto simp: walk_Nil2 split: if_splits)
  next
    case False
    with 3 show ?thesis by (auto split: if_splits)
  qed
qed simp_all





lemma loop_from:
  "\<exists>r. loop msk inputValue maskIndex st = Some r \<and> prefix (formatted st) (formatted r)
     \<and> prefix (unformatted st) (unformatted r) \<and> inputIndex st \<le> inputIndex r"
  by (simp add: loop_walk adv_def)

lemma consumed_pos:
  "tr \<noteq> [] \<Longrightarrow> consumes (last tr) \<Longrightarrow> 0 < length (filter consumes tr)"
  by (induction tr) (auto split: if_splits)

lemma walk_take_consumed:
  "walk ms inp = [] \<or> consumes (last (walk ms inp)) \<Longrightarrow>
     walk ms (take (length (filter consumes (walk ms inp))) inp) = walk ms inp"
proof (induction ms inp rule: walk.induct)
  case (1 inp)
  show ?case by simp
next
  case (2 m ms)
  show ?case by simp
next
  case (3 m ms c cs)
  note P = "3.prems"
  consider (place) "isPlaceholder m" "charMatchesMask c m"
    | (skip) "isPlaceholder m" "\<not> charMatchesMask c m"
    | (typed) "\<not> isPlaceholder m" "c = m"
    | (stop) "\<not> isPlaceholder m" "c \<noteq> m" "stops ms c"
    | (auto) "\<not> isPlaceholder m" "c \<noteq> m" "\<not> stops ms c"
    by blast
  then show ?case
  proof cases
    case place
    then have w: "walk (m # ms) (c # cs) = Placed m c # walk ms cs" by simp
    with P have "walk ms cs = [] \<or> consumes (last (walk ms cs))"
      by (auto split: if_splits)
    from "3.IH"(1) [OF place this] place show ?thesis by (simp add: w)
  next
    case skip
    let ?tr = "walk ms (c # cs)"
    have w: "walk (m # ms) (c # cs) = ?tr" using skip by simp
    with P have p: "?tr = [] \<or> consumes (last ?tr)" by simp
    show ?thesis
    proof (cases "?tr = []")
      case True
      with w show ?thesis by (simp add: walk_Nil2)
    next
      case False
      with p have "consumes (last ?tr)" by simp
      with False have "0 < length (filter consumes ?tr)" by (rule consumed_pos)
      then obtain k where k: "length (filter consumes ?tr) = Suc k" by (cases "length (filter consumes ?tr)") auto
      from "3.IH"(2) [OF skip p] have "walk ms (c # take k cs) = ?tr" by (simp add: k)
      with skip show ?thesis by (simp add: w k)
    qed
  next
    case typed
    then have w: "walk (m # ms) (c # cs) = Typed m # walk ms cs" by simp
    with P have "walk ms cs = [] \<or> consumes (last (walk ms cs))"
      by (auto split: if_splits)
    from "3.IH"(3) [OF typed this] typed show ?thesis by (simp add: w)
  next
    case stop
    then show ?thesis by (simp add: walk_Nil2)
  next
    case auto
    let ?tr = "walk ms (c # cs)"
    have w: "walk (m # ms) (c # cs) = Auto m # ?tr" using auto by simp
    with P have ne: "?tr \<noteq> []" and p: "consumes (last ?tr)" by (auto split: if_splits)
    then have "0 < length (filter consumes ?tr)" by (rule consumed_pos)
    then obtain k where k: "length (filter consumes ?tr) = Suc k" by (cases "length (filter consumes ?tr)") auto
    from "3.IH"(4) [OF auto] p have "walk ms (c # take k cs) = ?tr" by (simp add: k)
    with auto show ?thesis by (simp add: w k)
  qed
qed

lemma walk_trailing:
  "walk ms inp \<noteq> [] \<Longrightarrow> \<not> consumes (last (walk ms inp)) \<Longrightarrow>
     length (filter consumes (walk ms inp)) < length inp \<and>
     (\<exists>i<length ms. \<not> isPlaceholder (ms ! i) \<and> out (last (walk ms inp)) = ms ! i \<and>
        \<not> (Suc i < length ms \<and> isPlaceholder (ms ! Suc i)))"
proof (induction ms inp rule: walk.induct)
  case (1 inp)
  then show ?case by simp
next
  case (2 m ms)
  then show ?case by simp
next
  case (3 m ms c cs)
  note P = "3.prems"
  let ?G = "\<lambda>ms inp tr. length (filter consumes tr) < length inp \<and>
     (\<exists>i<length ms. \<not> isPlaceholder (ms ! i) \<and> out (last tr) = ms ! i \<and>
        \<not> (Suc i < length ms \<and> isPlaceholder (ms ! Suc i)))"
  have shift: "?G (m # ms) inp'' (e @ tr)"
    if "?G ms inp' tr" "tr \<noteq> []" "length (filter consumes e) + length inp' \<le> length inp''"
    for inp' inp'' tr e
  proof -
    from that(1) obtain i where i: "i < length ms" "\<not> isPlaceholder (ms ! i)"
      "out (last tr) = ms ! i" "\<not> (Suc i < length ms \<and> isPlaceholder (ms ! Suc i))"
      and l: "length (filter consumes tr) < length inp'" by blast
    have "length (filter consumes (e @ tr)) < length inp''"
      using l that(3) by simp
    moreover have "\<exists>j<length (m # ms). \<not> isPlaceholder ((m # ms) ! j) \<and>
        out (last (e @ tr)) = (m # ms) ! j \<and>
        \<not> (Suc j < length (m # ms) \<and> isPlaceholder ((m # ms) ! Suc j))"
      using i that(2) by (intro exI [of _ "Suc i"]) simp
    ultimately show ?thesis by blast
  qed
  consider (place) "isPlaceholder m" "charMatchesMask c m"
    | (skip) "isPlaceholder m" "\<not> charMatchesMask c m"
    | (typed) "\<not> isPlaceholder m" "c = m"
    | (stop) "\<not> isPlaceholder m" "c \<noteq> m" "stops ms c"
    | (auto) "\<not> isPlaceholder m" "c \<noteq> m" "\<not> stops ms c"
    by blast
  then show ?case
  proof cases
    case place
    then have w: "walk (m # ms) (c # cs) = [Placed m c] @ walk ms cs" by simp
    with P have ne: "walk ms cs \<noteq> []" and t: "\<not> consumes (last (walk ms cs))"
      by (auto split: if_splits)
    from shift [OF "3.IH"(1) [OF place ne t] ne, of "[Placed m c]" "c # cs"] show ?thesis
      unfolding w by simp
  next
    case skip
    then have w: "walk (m # ms) (c # cs) = [] @ walk ms (c # cs)" by simp
    with P have ne: "walk ms (c # cs) \<noteq> []" and t: "\<not> consumes (last (walk ms (c # cs)))"
      by (auto split: if_splits)
    from shift [OF "3.IH"(2) [OF skip ne t] ne, of "[]" "c # cs"] show ?thesis
      unfolding w by simp
  next
    case typed
    then have w: "walk (m # ms) (c # cs) = [Typed m] @ walk ms cs" by simp
    with P have ne: "walk ms cs \<noteq> []" and t: "\<not> consumes (last (walk ms cs))"
      by (auto split: if_splits)
    from shift [OF "3.IH"(3) [OF typed ne t] ne, of "[Typed m]" "c # cs"] show ?thesis
      unfolding w by simp
  next
    case stop
    with P show ?thesis by simp
  next
    case auto
    then have w: "walk (m # ms) (c # cs) = [Auto m] @ walk ms (c # cs)" by simp
    show ?thesis
    proof (cases "walk ms (c # cs) = []")
      case True
      have "\<not> (Suc 0 < length (m # ms) \<and> isPlaceholder ((m # ms) ! Suc 0))"
      proof (cases ms)
        case Nil
        then show ?thesis by simp
      next
        case (Cons n ms')
        with True auto(3) show ?thesis by (auto split: if_splits)
      qed
      with auto(1) True show ?thesis
        unfolding w by (intro conjI exI [of _ 0]) simp_all
    next
      case ne: False
      with P w have t: "\<not> consumes (last (walk ms (c # cs)))" by simp
      from shift [OF "3.IH"(4) [OF auto ne t] ne, of "[Auto m]" "c # cs"] show ?thesis
        unfolding w by simp
    qed
  qed
qed

lemma list_all_upt: "list_all P [0..<n] = (\<forall>i<n. P i)"
  by (auto simp: list_all_iff)

lemma last_take_nth:
  assumes "0 < k" and "k \<le> length xs"
  shows "last (take k xs) = xs ! (k - 1)"
proof -
  from assms have ne: "take k xs \<noteq> []" by auto
  from assms have len: "length (take k xs) = k" by simp
  have "last (take k xs) = take k xs ! (k - 1)"
    using last_conv_nth [OF ne] by (simp only: len)
  also have "\<dots> = xs ! (k - 1)"
    using assms by (intro nth_take) simp
  finally show ?thesis .
qed

lemma consumed_Nil_iff:
  "tr = [] \<or> consumes (last tr) \<Longrightarrow> (length (filter consumes tr) = 0) = (tr = [])"
  using consumed_pos [of tr] by auto

lemma length_walk_le: "length (walk ms inp) \<le> length ms"
  by (induction ms inp rule: walk.induct) auto

lemma digit_not_letter: "isDigit c \<Longrightarrow> \<not> isLetter c"
  by (auto simp: isDigit_def isLetter_def)

subsection \<open>Facts about the loop variables at each mask position\<close>

lemma stateAt_SucE:
  assumes "stateAt msk inputValue (Suc i) = Some st'"
  obtains st where "stateAt msk inputValue i = Some st" "i < length msk"
    "body msk inputValue i st = Some (Next st')"
  using assms by (auto split: option.splits if_splits flow.splits)

lemma stateAt_le:
  assumes "stateAt msk inputValue n = Some st"
  shows "n \<le> length msk"
proof (cases n)
  case 0
  then show ?thesis by simp
next
  case (Suc i)
  with assms have "stateAt msk inputValue (Suc i) = Some st" by simp
  then have "i < length msk" by (rule stateAt_SucE)
  with Suc show ?thesis by simp
qed

lemma stateAt_loop:
  "stateAt msk inputValue n = Some st \<Longrightarrow>
     loop msk inputValue 0 initial = loop msk inputValue n st"
proof (induction n arbitrary: st)
  case 0
  then show ?case by simp
next
  case (Suc n)
  from Suc.prems obtain st0 where s: "stateAt msk inputValue n = Some st0" "n < length msk"
    "body msk inputValue n st0 = Some (Next st)"
    by (rule stateAt_SucE)
  from Suc.IH [OF s(1)] loop_Next [OF s(2,3)] show ?case by simp
qed

lemma body_cases:
  assumes "i < length msk"
  shows "body msk inputValue i st = Some Break \<or> (\<exists>st'. body msk inputValue i st = Some (Next st'))"
  by (simp add: body_eq [OF assms] Let_def)

lemma stateAt_stop:
  "stateAt msk inputValue i = Some st \<Longrightarrow>
     \<exists>n st'. n \<le> length msk \<and> stateAt msk inputValue n = Some st' \<and>
       (n = length msk \<or> body msk inputValue n st' = Some Break) \<and>
       loop msk inputValue i st = Some st'"
proof (induction msk inputValue i st rule: loop.induct)
  case (1 msk inputValue i st)
  from "1.prems" have le: "i \<le> length msk" by (rule stateAt_le)
  show ?case
  proof (cases "i < length msk")
    case False
    with le have "i = length msk" by simp
    with "1.prems" False show ?thesis
      by (intro exI [of _ i] exI [of _ st]) (simp add: loop_end)
  next
    case True
    from body_cases [OF True, of inputValue st] show ?thesis
    proof
      assume b: "body msk inputValue i st = Some Break"
      with "1.prems" True show ?thesis
        by (intro exI [of _ i] exI [of _ st]) (simp add: loop_Break)
    next
      assume "\<exists>st'. body msk inputValue i st = Some (Next st')"
      then obtain st' where b: "body msk inputValue i st = Some (Next st')" ..
      with "1.prems" True have "stateAt msk inputValue (i + 1) = Some st'" by simp
      from "1.IH" [OF True b refl this] loop_Next [OF True b] show ?thesis by simp
    qed
  qed
qed

lemma body_Next_step:
  assumes "i < length msk" and "body msk inputValue i st = Some (Next st')"
  defines "R \<equiv> isPlaceholder (msk ! i) \<and> inputIndex st < length inputValue \<and>
          \<not> charMatchesMask (inputValue ! inputIndex st) (msk ! i)"
  shows "(R \<and> formatted st' = formatted st \<and> unformatted st' = unformatted st) \<or>
     (\<not> R \<and> (\<exists>x. agrees x (msk ! i) \<and> formatted st' = formatted st @ [x] \<and>
        unformatted st' = unformatted st @ (if isPlaceholder (msk ! i) then [x] else [])))"
  using assms(2) unfolding R_def body_eq [OF assms(1)] Let_def agrees_def
  by (auto split: if_splits)

lemma upt_nth_take: "n \<le> length xs \<Longrightarrow> map ((!) xs) [0..<n] = take n xs"
  by (rule nth_equalityI) simp_all

lemma stateAt_inv:
  "stateAt msk inputValue n = Some st \<Longrightarrow>
     subseq (unformatted st) (formatted st) \<and>
     list_all2 agrees (formatted st) (kept msk inputValue n) \<and>
     unformatted st =
       map fst (filter (\<lambda>(f, k). isPlaceholder k) (zip (formatted st) (kept msk inputValue n)))"
proof (induction n arbitrary: st)
  case 0
  then have "st = initial" by simp
  then show ?case by (simp add: kept_def initial_def)
next
  case (Suc n)
  from Suc.prems obtain st0 where s: "stateAt msk inputValue n = Some st0" "n < length msk"
    "body msk inputValue n st0 = Some (Next st)"
    by (rule stateAt_SucE)
  let ?R = "isPlaceholder (msk ! n) \<and> inputIndex st0 < length inputValue \<and>
          \<not> charMatchesMask (inputValue ! inputIndex st0) (msk ! n)"
  have R: "refuses msk inputValue n = ?R"
    by (simp add: refuses_def s(1,2))
  have K: "kept msk inputValue (Suc n) =
      kept msk inputValue n @ (if ?R then [] else [msk ! n])"
    by (simp add: kept_def R)
  note ih = Suc.IH [OF s(1)]
  note IH = ih [THEN conjunct1] ih [THEN conjunct2, THEN conjunct1]
    ih [THEN conjunct2, THEN conjunct2]
  from IH(2) have len: "length (formatted st0) = length (kept msk inputValue n)"
    by (rule list_all2_lengthD)
  from body_Next_step [OF s(2,3)] show ?case
  proof
    assume "?R \<and> formatted st = formatted st0 \<and> unformatted st = unformatted st0"
    then have r: "?R" "formatted st = formatted st0" "unformatted st = unformatted st0"
      by blast+
    from r(1) K have k: "kept msk inputValue (Suc n) = kept msk inputValue n" by simp
    show ?thesis unfolding k r(2,3) by (rule ih)
  next
    assume "\<not> ?R \<and> (\<exists>x. agrees x (msk ! n) \<and> formatted st = formatted st0 @ [x] \<and>
        unformatted st = unformatted st0 @ (if isPlaceholder (msk ! n) then [x] else []))"
    then obtain x where nR: "\<not> ?R" and x: "agrees x (msk ! n)"
      "formatted st = formatted st0 @ [x]"
      "unformatted st = unformatted st0 @ (if isPlaceholder (msk ! n) then [x] else [])"
      by blast
    from nR K have K': "kept msk inputValue (Suc n) = kept msk inputValue n @ [msk ! n]"
      by simp
    have 1: "subseq (unformatted st) (formatted st)"
      using IH(1) x(2,3) by (auto intro: subseq_rev_drop_many)
    have 2: "list_all2 agrees (formatted st) (kept msk inputValue (Suc n))"
      using IH(2) x(1,2) unfolding K' by (simp add: list_all2_appendI)
    have 3: "unformatted st = map fst (filter (\<lambda>(f, k). isPlaceholder k)
        (zip (formatted st) (kept msk inputValue (Suc n))))"
      using IH(3) x(2,3) len unfolding K' by simp
    from 1 2 3 show ?thesis by blast
  qed
qed

lemma kept_all:
  assumes "filter (refuses msk inputValue) [0..<n] = []" and "n \<le> length msk"
  shows "kept msk inputValue n = take n msk"
proof -
  from assms(1) have "filter (\<lambda>i. \<not> refuses msk inputValue i) [0..<n] = [0..<n]"
    by (simp add: filter_empty_conv)
  with assms(2) show ?thesis by (simp add: kept_def upt_nth_take)
qed

lemma agrees_positions:
  assumes "list_all2 agrees fs (take n msk)" and "n \<le> length msk"
  shows "length fs = n \<and> (\<forall>j<n. agrees (fs ! j) (msk ! j))"
proof -
  from assms have len: "length fs = n"
    by (auto dest: list_all2_lengthD)
  moreover have "agrees (fs ! j) (msk ! j)" if "j < n" for j
    using list_all2_nthD [OF assms(1), of j] that len by simp
  ultimately show ?thesis by blast
qed

subsection \<open>The phone number of the documentation\<close>

text \<open>
  Claim C7. For the mask \<open>(999) 999-9999\<close> and the raw input \<open>5555555555\<close>, the function
  returns the formatted value \<open>(555) 555-5555\<close> and the unformatted value \<open>5555555555\<close>.
\<close>

theorem formatToMask_phone:
  "formatToMask ''(999) 999-9999'' ''5555555555'' =
     Some \<lparr>formatted = ''(555) 555-5555'', unformatted = ''5555555555''\<rparr>"
  by code_simp

subsection \<open>One run of the loop body\<close>

text \<open>
  Claim C5. At a placeholder position of the mask (\<open>9\<close>, \<open>a\<close> or \<open>*\<close>) with input left,
  a current input character outside the placeholder's class leaves the three loop
  variables as they are (nothing is appended, \<open>inputIndex\<close> stays); a character of the
  class is appended to both \<open>formatted\<close> and \<open>unformatted\<close> and \<open>inputIndex\<close> grows by
  one. In both cases processing moves to the next mask position: the loop returns a
  result from here, it is the result that the loop returns from the next mask position
  with the variables the body has left, and that result begins with these variables
  (their \<open>formatted\<close> and \<open>unformatted\<close> are initial segments of the result's, and
  \<open>inputIndex\<close> does not go back).
\<close>

theorem body_placeholder:
  assumes "maskIndex < length msk" and "isPlaceholder (msk ! maskIndex)"
    and "inputIndex st < length inputValue"
  shows "body msk inputValue maskIndex st = Some (Next
           (if charMatchesMask (inputValue ! inputIndex st) (msk ! maskIndex)
            then st\<lparr>formatted := formatted st @ [inputValue ! inputIndex st],
                    unformatted := unformatted st @ [inputValue ! inputIndex st],
                    inputIndex := inputIndex st + 1\<rparr>
            else st))
     \<and> (\<exists>r. loop msk inputValue maskIndex st = Some r
          \<and> loop msk inputValue (maskIndex + 1)
               (if charMatchesMask (inputValue ! inputIndex st) (msk ! maskIndex)
                then st\<lparr>formatted := formatted st @ [inputValue ! inputIndex st],
                        unformatted := unformatted st @ [inputValue ! inputIndex st],
                        inputIndex := inputIndex st + 1\<rparr>
                else st) = Some r
          \<and> (if charMatchesMask (inputValue ! inputIndex st) (msk ! maskIndex)
              then prefix (formatted st @ [inputValue ! inputIndex st]) (formatted r)
                 \<and> prefix (unformatted st @ [inputValue ! inputIndex st]) (unformatted r)
                 \<and> inputIndex st + 1 \<le> inputIndex r
              else prefix (formatted st) (formatted r)
                 \<and> prefix (unformatted st) (unformatted r)
                 \<and> inputIndex st \<le> inputIndex r))"
proof -
  let ?st = "if charMatchesMask (inputValue ! inputIndex st) (msk ! maskIndex)
            then st\<lparr>formatted := formatted st @ [inputValue ! inputIndex st],
                    unformatted := unformatted st @ [inputValue ! inputIndex st],
                    inputIndex := inputIndex st + 1\<rparr>
            else st"
  have b: "body msk inputValue maskIndex st = Some (Next ?st)"
    using assms by (simp add: body_eq [OF assms(1)] Let_def)
  have l: "loop msk inputValue maskIndex st = loop msk inputValue (maskIndex + 1) ?st"
    by (rule loop_Next [OF assms(1) b])
  from loop_from [of msk inputValue "maskIndex + 1" ?st] obtain r where
    r: "loop msk inputValue (maskIndex + 1) ?st = Some r"
      "prefix (formatted ?st) (formatted r)" "prefix (unformatted ?st) (unformatted r)"
      "inputIndex ?st \<le> inputIndex r"
    by blast
  have "if charMatchesMask (inputValue ! inputIndex st) (msk ! maskIndex)
        then prefix (formatted st @ [inputValue ! inputIndex st]) (formatted r)
           \<and> prefix (unformatted st @ [inputValue ! inputIndex st]) (unformatted r)
           \<and> inputIndex st + 1 \<le> inputIndex r
        else prefix (formatted st) (formatted r)
           \<and> prefix (unformatted st) (unformatted r)
           \<and> inputIndex st \<le> inputIndex r"
    using r(2-4) by (simp split: if_splits)
  with b l r(1) show ?thesis by (intro conjI exI [of _ r]) simp_all
qed

theorem body_placeholder_witness:
  "body ''a9'' ''1'' 0 initial = Some (Next initial)
   \<and> loop ''a9'' ''1'' 0 initial =
       Some \<lparr>formatted = ''1'', unformatted = ''1'', inputIndex = 1\<rparr>
   \<and> loop ''a9'' ''1'' 1 initial =
       Some \<lparr>formatted = ''1'', unformatted = ''1'', inputIndex = 1\<rparr>
   \<and> body ''a9'' ''1'' 1 initial =
       Some (Next \<lparr>formatted = ''1'', unformatted = ''1'', inputIndex = 1\<rparr>)
   \<and> loop ''a9'' ''1'' 2 \<lparr>formatted = ''1'', unformatted = ''1'', inputIndex = 1\<rparr> =
       Some \<lparr>formatted = ''1'', unformatted = ''1'', inputIndex = 1\<rparr>"
proof -
  have l2: "loop ''a9'' ''1'' (Suc (Suc 0))
       \<lparr>formatted = ''1'', unformatted = ''1'', inputIndex = Suc 0\<rparr> =
       Some \<lparr>formatted = ''1'', unformatted = ''1'', inputIndex = Suc 0\<rparr>"
    by (simp add: loop_end)
  from body_placeholder [of 0 "''a9''" initial "''1''"]
    body_placeholder [of 1 "''a9''" initial "''1''"] l2
  show ?thesis
    by (auto simp add: initial_def isPlaceholder_def charMatchesMask_def isDigit_def isLetter_def
        loop_end)
qed

text \<open>
  Claim C6. At a literal position of the mask, with input left and a current input
  character that is not the literal: when the next mask position is a placeholder, the
  literal is appended to \<open>formatted\<close> (no input consumed) if the current input character
  is of that placeholder's class, and the loop breaks and returns the variables as they
  are otherwise; when the next mask position is a literal, or there is none, the literal
  is appended.
\<close>

theorem body_literal:
  assumes "maskIndex < length msk" and "\<not> isPlaceholder (msk ! maskIndex)"
    and "inputIndex st < length inputValue"
    and "inputValue ! inputIndex st \<noteq> msk ! maskIndex"
  shows "body msk inputValue maskIndex st =
           (if maskIndex + 1 < length msk \<and> isPlaceholder (msk ! (maskIndex + 1))
            then (if charMatchesMask (inputValue ! inputIndex st) (msk ! (maskIndex + 1))
                  then Some (Next (st\<lparr>formatted := formatted st @ [msk ! maskIndex]\<rparr>))
                  else Some Break)
            else Some (Next (st\<lparr>formatted := formatted st @ [msk ! maskIndex]\<rparr>)))
     \<and> loop msk inputValue maskIndex st =
           (if maskIndex + 1 < length msk \<and> isPlaceholder (msk ! (maskIndex + 1))
               \<and> \<not> charMatchesMask (inputValue ! inputIndex st) (msk ! (maskIndex + 1))
            then Some st
            else loop msk inputValue (maskIndex + 1)
                   (st\<lparr>formatted := formatted st @ [msk ! maskIndex]\<rparr>))"
proof -
  let ?stop = "maskIndex + 1 < length msk \<and> isPlaceholder (msk ! (maskIndex + 1))
               \<and> \<not> charMatchesMask (inputValue ! inputIndex st) (msk ! (maskIndex + 1))"
  let ?st = "st\<lparr>formatted := formatted st @ [msk ! maskIndex]\<rparr>"
  have b: "body msk inputValue maskIndex st = (if ?stop then Some Break else Some (Next ?st))"
    using assms(2-4) by (simp add: body_eq [OF assms(1)] Let_def)
  have b': "body msk inputValue maskIndex st =
           (if maskIndex + 1 < length msk \<and> isPlaceholder (msk ! (maskIndex + 1))
            then (if charMatchesMask (inputValue ! inputIndex st) (msk ! (maskIndex + 1))
                  then Some (Next ?st) else Some Break)
            else Some (Next ?st))"
    using assms(2-4) by (simp add: body_eq [OF assms(1)] Let_def)
  have l: "loop msk inputValue maskIndex st =
      (if ?stop then Some st else loop msk inputValue (maskIndex + 1) ?st)"
  proof (cases ?stop)
    case True
    with b have "body msk inputValue maskIndex st = Some Break" by simp
    then have "loop msk inputValue maskIndex st = Some st"
      by (rule loop_Break [OF assms(1)])
    also have "Some st = (if ?stop then Some st else loop msk inputValue (maskIndex + 1) ?st)"
      by (rule if_P [OF True, symmetric])
    finally show ?thesis .
  next
    case False
    with b have "body msk inputValue maskIndex st = Some (Next ?st)" by simp
    then have "loop msk inputValue maskIndex st = loop msk inputValue (maskIndex + 1) ?st"
      by (rule loop_Next [OF assms(1)])
    also have "\<dots> = (if ?stop then Some st else loop msk inputValue (maskIndex + 1) ?st)"
      by (rule if_not_P [OF False, symmetric])
    finally show ?thesis .
  qed
  from b' l show ?thesis by (rule conjI)
qed

theorem body_literal_witness:
  "body ''-9'' ''1'' 0 initial =
     Some (Next \<lparr>formatted = ''-'', unformatted = [], inputIndex = 0\<rparr>)
   \<and> body ''-/'' ''1'' 0 initial =
     Some (Next \<lparr>formatted = ''-'', unformatted = [], inputIndex = 0\<rparr>)
   \<and> body ''-'' ''1'' 0 initial =
     Some (Next \<lparr>formatted = ''-'', unformatted = [], inputIndex = 0\<rparr>)
   \<and> body ''-a'' ''1'' 0 initial = Some Break
   \<and> loop ''-a'' ''1'' 0 initial = Some initial"
  using body_literal [of 0 "''-9''" initial "''1''"]
    body_literal [of 0 "''-/''" initial "''1''"]
    body_literal [of 0 "''-''" initial "''1''"]
    body_literal [of 0 "''-a''" initial "''1''"]
  by (simp add: initial_def isPlaceholder_def charMatchesMask_def isDigit_def isLetter_def)

subsection \<open>The postal code mask\<close>

text \<open>
  Claim C4, as the code has it. For the mask \<open>a9a 9a9\<close> and a raw input that begins with
  a digit, it is the first mask position that is given up, not the digit: the body at
  mask position 0 appends nothing and leaves \<open>inputIndex\<close> at 0, the loop goes on at
  mask position 1 (the placeholder \<open>9\<close>), whose body places the digit, and both results of
  \<open>formatToMask\<close> begin with that digit. No later character fills mask position 0.
\<close>

theorem postal_leading_digit:
  assumes "inputValue \<noteq> []" and "isDigit (hd inputValue)"
  shows "body ''a9a 9a9'' inputValue 0 initial = Some (Next initial)
    \<and> loop ''a9a 9a9'' inputValue 0 initial = loop ''a9a 9a9'' inputValue 1 initial
    \<and> body ''a9a 9a9'' inputValue 1 initial =
        Some (Next \<lparr>formatted = [hd inputValue], unformatted = [hd inputValue],
                     inputIndex = 1\<rparr>)
    \<and> (\<exists>r. formatToMask ''a9a 9a9'' inputValue = Some r
          \<and> take 1 (formatted r) = [hd inputValue] \<and> take 1 (unformatted r) = [hd inputValue])"
proof -
  from assms(1) obtain c cs where i: "inputValue = c # cs" by (cases inputValue) auto
  with assms(2) have d: "isDigit c" by simp
  then have nl: "\<not> isLetter c" by (rule digit_not_letter)
  have b0: "body ''a9a 9a9'' inputValue 0 initial = Some (Next initial)"
    using nl by (simp add: body_eq Let_def i initial_def isPlaceholder_def charMatchesMask_def)
  have "loop ''a9a 9a9'' inputValue 0 initial = loop ''a9a 9a9'' inputValue (0 + 1) initial"
    by (rule loop_Next [OF _ b0]) simp
  then have "loop ''a9a 9a9'' inputValue 0 initial = loop ''a9a 9a9'' inputValue 1 initial"
    by simp
  moreover note b0
  moreover have "body ''a9a 9a9'' inputValue 1 initial =
        Some (Next \<lparr>formatted = [hd inputValue], unformatted = [hd inputValue],
                     inputIndex = 1\<rparr>)"
    using d by (simp add: body_eq Let_def i initial_def isPlaceholder_def charMatchesMask_def)
  moreover have "walk ''a9a 9a9'' (c # cs) = Placed CHR ''9'' c # walk ''a 9a9'' cs"
    using d nl by (simp add: isPlaceholder_def charMatchesMask_def)
  then have "\<exists>r. formatToMask ''a9a 9a9'' inputValue = Some r
          \<and> take 1 (formatted r) = [hd inputValue] \<and> take 1 (unformatted r) = [hd inputValue]"
    by (simp add: formatToMask_walk i)
  ultimately show ?thesis by blast
qed

theorem postal_leading_digit_witness:
  "body ''a9a 9a9'' ''1A'' 0 initial = Some (Next initial)
    \<and> loop ''a9a 9a9'' ''1A'' 0 initial = loop ''a9a 9a9'' ''1A'' 1 initial
    \<and> body ''a9a 9a9'' ''1A'' 1 initial =
        Some (Next \<lparr>formatted = ''1'', unformatted = ''1'', inputIndex = 1\<rparr>)
    \<and> (\<exists>r. formatToMask ''a9a 9a9'' ''1A'' = Some r
          \<and> take 1 (formatted r) = ''1'' \<and> take 1 (unformatted r) = ''1'')"
  using postal_leading_digit [of "''1A''"] by (simp add: isDigit_def)

text \<open>
  The claim as the specification words it (the digit is skipped and a later letter
  fills the first placeholder) would give \<open>A\<close> for the raw input \<open>1A\<close>; the function
  returns \<open>1A\<close>.
\<close>

theorem postal_digit_not_skipped:
  "formatToMask ''a9a 9a9'' ''1A'' = Some \<lparr>formatted = ''1A'', unformatted = ''1A''\<rparr>
   \<and> formatToMask ''a9a 9a9'' ''1A'' \<noteq> Some \<lparr>formatted = ''A'', unformatted = ''A''\<rparr>"
  by code_simp

subsection \<open>No failure, and the clean value comes from the input\<close>

text \<open>
  Claim C9. For every mask and every raw input the function returns a pair of strings:
  the loop ends (its termination is proved with the definition), no read of the mask or
  of the input is outside the string (such a read is the \<open>None\<close> of the model), the
  formatted value is never longer than the mask, and the unformatted value is never
  longer than the formatted one.
\<close>

theorem formatToMask_returns:
  "\<exists>r. formatToMask msk inputValue = Some r \<and> length (formatted r) \<le> length msk
     \<and> length (unformatted r) \<le> length (formatted r)"
proof -
  let ?tr = "walk msk inputValue"
  have "length (map out ?tr) \<le> length msk"
    by (simp add: length_walk_le)
  moreover have "length (placed ?tr) \<le> length (map out ?tr)"
    using subseq_placed_out [of ?tr] by (rule list_emb_length)
  ultimately show ?thesis
    by (simp add: formatToMask_walk)
qed

text \<open>
  Claim C10. The unformatted value is a subsequence of the raw input: its characters
  are characters of the raw input, in the same order, and it is not longer than the raw
  input.
\<close>

theorem unformatted_subseq_input:
  "\<exists>r. formatToMask msk inputValue = Some r \<and> subseq (unformatted r) inputValue \<and>
     set (unformatted r) \<subseteq> set inputValue \<and> length (unformatted r) \<le> length inputValue"
proof -
  let ?u = "placed (walk msk inputValue)"
  have s: "subseq ?u inputValue" by (rule placed_walk_subseq)
  then have "set ?u \<subseteq> set inputValue"
    by (auto elim: list_emb_set)
  moreover from s have "length ?u \<le> length inputValue"
    by (rule list_emb_length)
  ultimately show ?thesis using s by (simp add: formatToMask_walk)
qed

subsection \<open>The formatted value against the mask and the input\<close>

text \<open>
  Claim C2, as the code has it. The loop stops at a mask position \<open>n\<close> (the end of the
  mask, or a \<open>break\<close> of the body) and the result of the function is the value of the
  loop variables there. At every mask position \<open>n\<close> the loop arrives at, with variables
  \<open>st\<close>: \<open>unformatted\<close> is a subsequence of \<open>formatted\<close>, and \<open>formatted\<close> lines up,
  character by character, with the mask symbols of the positions below \<open>n\<close> that did
  not refuse a character (the refusing placeholders, which the code skips, are left
  out): against a literal it has that literal, against a placeholder a character of
  the placeholder's class, and the characters against placeholders are \<open>unformatted\<close>.
  When no position below \<open>n\<close> refused a character this is the claim as stated:
  \<open>formatted\<close> has \<open>n\<close> characters and position \<open>j\<close> of \<open>formatted\<close> agrees with
  position \<open>j\<close> of the mask, for every \<open>j\<close> below \<open>n\<close>.
\<close>

theorem formatted_follows_mask:
  "(\<exists>n st. stateAt msk inputValue n = Some st
       \<and> (n = length msk \<or> body msk inputValue n st = Some Break)
       \<and> formatToMask msk inputValue =
           Some \<lparr>formatted = formatted st, unformatted = unformatted st\<rparr>)
   \<and> (\<forall>n st. stateAt msk inputValue n = Some st \<longrightarrow>
         n \<le> length msk
       \<and> subseq (unformatted st) (formatted st)
       \<and> list_all2 agrees (formatted st) (kept msk inputValue n)
       \<and> unformatted st =
           map fst (filter (\<lambda>(f, k). isPlaceholder k)
             (zip (formatted st) (kept msk inputValue n)))
       \<and> (filter (refuses msk inputValue) [0..<n] = [] \<longrightarrow>
             kept msk inputValue n = take n msk \<and> length (formatted st) = n
           \<and> (\<forall>j<n. agrees (formatted st ! j) (msk ! j))))"
proof (intro conjI allI impI)
  have "stateAt msk inputValue 0 = Some initial" by simp
  from stateAt_stop [OF this] obtain n st where
    n: "stateAt msk inputValue n = Some st"
      "n = length msk \<or> body msk inputValue n st = Some Break"
      "loop msk inputValue 0 initial = Some st"
    by blast
  from n(3) have "formatToMask msk inputValue =
      Some \<lparr>formatted = formatted st, unformatted = unformatted st\<rparr>"
    by (simp add: formatToMask_def)
  with n(1,2) show "\<exists>n st. stateAt msk inputValue n = Some st
       \<and> (n = length msk \<or> body msk inputValue n st = Some Break)
       \<and> formatToMask msk inputValue =
           Some \<lparr>formatted = formatted st, unformatted = unformatted st\<rparr>"
    by blast
next
  fix n st assume s: "stateAt msk inputValue n = Some st"
  note inv = stateAt_inv [OF s]
  show "n \<le> length msk" using s by (rule stateAt_le)
  show "subseq (unformatted st) (formatted st)" by (rule inv [THEN conjunct1])
  show "list_all2 agrees (formatted st) (kept msk inputValue n)"
    by (rule inv [THEN conjunct2, THEN conjunct1])
  show "unformatted st = map fst (filter (\<lambda>(f, k). isPlaceholder k)
             (zip (formatted st) (kept msk inputValue n)))"
    by (rule inv [THEN conjunct2, THEN conjunct2])
  assume r: "filter (refuses msk inputValue) [0..<n] = []"
  from kept_all [OF r stateAt_le [OF s]]
  show k: "kept msk inputValue n = take n msk" .
  from inv [THEN conjunct2, THEN conjunct1] have "list_all2 agrees (formatted st) (take n msk)"
    by (simp only: k)
  from agrees_positions [OF this stateAt_le [OF s]]
  have P: "length (formatted st) = n" "\<forall>j<n. agrees (formatted st ! j) (msk ! j)"
    by blast+
  show "length (formatted st) = n" by (rule P(1))
  fix j assume "j < n"
  with P(2) show "agrees (formatted st ! j) (msk ! j)" by blast
qed

theorem formatted_follows_mask_witness:
  "stateAt ''99/99/9999'' ''01152024'' 10 =
     Some \<lparr>formatted = ''01/15/2024'', unformatted = ''01152024'', inputIndex = 8\<rparr>
   \<and> filter (refuses ''99/99/9999'' ''01152024'') [0..<10] = []
   \<and> kept ''99/99/9999'' ''01152024'' 10 = take 10 ''99/99/9999''
   \<and> list_all2 agrees ''01/15/2024'' (take 10 ''99/99/9999'')
   \<and> ''01152024'' =
       map fst (filter (\<lambda>(f, k). isPlaceholder k) (zip ''01/15/2024'' (take 10 ''99/99/9999'')))
   \<and> stateAt ''a9a 9a9'' ''1A2'' 5 =
     Some \<lparr>formatted = ''1A 2'', unformatted = ''1A2'', inputIndex = 3\<rparr>
   \<and> filter (refuses ''a9a 9a9'' ''1A2'') [0..<5] = [0]
   \<and> kept ''a9a 9a9'' ''1A2'' 5 = ''9a 9''
   \<and> list_all2 agrees ''1A 2'' ''9a 9''"
proof -
  have s: "stateAt ''99/99/9999'' ''01152024'' 10 =
     Some \<lparr>formatted = ''01/15/2024'', unformatted = ''01152024'', inputIndex = 8\<rparr>"
    by code_simp
  have r: "filter (refuses ''99/99/9999'' ''01152024'') [0..<10] = []"
    by code_simp
  have s': "stateAt ''a9a 9a9'' ''1A2'' 5 =
     Some \<lparr>formatted = ''1A 2'', unformatted = ''1A2'', inputIndex = 3\<rparr>"
    by code_simp
  have r': "filter (refuses ''a9a 9a9'' ''1A2'') [0..<5] = [0]"
    by code_simp
  have k': "kept ''a9a 9a9'' ''1A2'' 5 = ''9a 9''"
    by code_simp
  note t = formatted_follows_mask [of "''99/99/9999''" "''01152024''", THEN conjunct2,
      rule_format, OF s]
  note t' = formatted_follows_mask [of "''a9a 9a9''" "''1A2''", THEN conjunct2,
      rule_format, OF s']
  from t r have 1: "kept ''99/99/9999'' ''01152024'' 10 = take 10 ''99/99/9999''"
    by blast
  from t have "list_all2 agrees ''01/15/2024'' (kept ''99/99/9999'' ''01152024'' 10)"
    "''01152024'' = map fst (filter (\<lambda>(f, k). isPlaceholder k)
        (zip ''01/15/2024'' (kept ''99/99/9999'' ''01152024'' 10)))"
    by simp_all
  then have 2: "list_all2 agrees ''01/15/2024'' (take 10 ''99/99/9999'')"
    "''01152024'' = map fst (filter (\<lambda>(f, k). isPlaceholder k)
        (zip ''01/15/2024'' (take 10 ''99/99/9999'')))"
    by (simp_all only: 1)
  from t' have "list_all2 agrees ''1A 2'' (kept ''a9a 9a9'' ''1A2'' 5)"
    by simp
  then have 3: "list_all2 agrees ''1A 2'' ''9a 9''" by (simp only: k')
  from s r 1 2 s' r' k' 3 show ?thesis by (intro conjI)
qed

text \<open>
  Position by position the formatted value and the mask do not agree once a placeholder
  has refused a character: for the mask \<open>a9a 9a9\<close> and the raw input \<open>1A2\<close> the result is \<open>1A 2\<close>,
  the literal of mask position 3 stands at position 2 of the formatted value, and
  position 3 holds a digit.
\<close>

theorem postal_positions_shift:
  "formatToMask ''a9a 9a9'' ''1A2'' = Some \<lparr>formatted = ''1A 2'', unformatted = ''1A2''\<rparr>
   \<and> \<not> isPlaceholder (''a9a 9a9'' ! 3) \<and> ''1A 2'' ! 3 \<noteq> ''a9a 9a9'' ! 3
   \<and> isPlaceholder (''a9a 9a9'' ! 2) \<and> \<not> charMatchesMask (''1A 2'' ! 2) (''a9a 9a9'' ! 2)"
  by code_simp

text \<open>
  Claim C3, as the code has it. For every mask and every raw input, let \<open>k\<close> be the
  number of input characters the loop has consumed (the final \<open>inputIndex\<close>). Either
  the formatted value has nothing after the last consumed character: the result is
  the result of formatting the first \<open>k\<close> input characters alone, \<open>formatted\<close> is empty
  when \<open>k = 0\<close> and ends with the \<open>k\<close>-th input character otherwise. Or unconsumed
  input is left and \<open>formatted\<close> ends with a literal of the mask that is followed in the
  mask by another literal or by the end of the mask. So nothing follows the last
  consumed character when the whole input is consumed (the empty input included), and
  for every mask in which each literal is followed by a placeholder.
\<close>

theorem formatted_after_last_consumed:
  "\<exists>st. loop msk inputValue 0 initial = Some st
     \<and> formatToMask msk inputValue =
         Some \<lparr>formatted = formatted st, unformatted = unformatted st\<rparr>
     \<and> length (unformatted st) \<le> inputIndex st \<and> inputIndex st \<le> length inputValue
     \<and> ((formatToMask msk (take (inputIndex st) inputValue) =
            Some \<lparr>formatted = formatted st, unformatted = unformatted st\<rparr>
          \<and> (if inputIndex st = 0 then formatted st = []
              else formatted st \<noteq> []
                 \<and> last (formatted st) = inputValue ! (inputIndex st - 1)))
        \<or> (inputIndex st < length inputValue \<and> formatted st \<noteq> []
          \<and> (\<exists>i<length msk. \<not> isPlaceholder (msk ! i) \<and> last (formatted st) = msk ! i
                \<and> \<not> (Suc i < length msk \<and> isPlaceholder (msk ! Suc i)))))
     \<and> (inputIndex st = length inputValue
          \<or> (\<forall>i<length msk. \<not> isPlaceholder (msk ! i) \<longrightarrow>
                Suc i < length msk \<and> isPlaceholder (msk ! Suc i)) \<longrightarrow>
         formatToMask msk (take (inputIndex st) inputValue) =
            Some \<lparr>formatted = formatted st, unformatted = unformatted st\<rparr>
       \<and> (if inputIndex st = 0 then formatted st = []
           else formatted st \<noteq> []
              \<and> last (formatted st) = inputValue ! (inputIndex st - 1)))"
proof -
  let ?tr = "walk msk inputValue"
  define k where "k = length (filter consumes ?tr)"
  define st where "st = \<lparr>formatted = map out ?tr, unformatted = placed ?tr, inputIndex = k\<rparr>"
  have sel: "formatted st = map out ?tr" "unformatted st = placed ?tr" "inputIndex st = k"
    by (simp_all add: st_def)
  have l: "loop msk inputValue 0 initial = Some st"
    by (simp add: st_def k_def loop_initial)
  have f: "formatToMask msk inputValue =
      Some \<lparr>formatted = formatted st, unformatted = unformatted st\<rparr>"
    by (simp add: sel formatToMask_walk)
  have k: "inputIndex st \<le> length inputValue"
    unfolding sel k_def by (rule consumed_le)
  have u: "length (unformatted st) \<le> inputIndex st"
    unfolding sel k_def by (rule length_placed_le)
  have D: "(formatToMask msk (take (inputIndex st) inputValue) =
            Some \<lparr>formatted = formatted st, unformatted = unformatted st\<rparr>
          \<and> (if inputIndex st = 0 then formatted st = []
              else formatted st \<noteq> []
                 \<and> last (formatted st) = inputValue ! (inputIndex st - 1)))
        \<or> (inputIndex st < length inputValue \<and> formatted st \<noteq> []
          \<and> (\<exists>i<length msk. \<not> isPlaceholder (msk ! i) \<and> last (formatted st) = msk ! i
                \<and> \<not> (Suc i < length msk \<and> isPlaceholder (msk ! Suc i))))"
  proof (cases "?tr = [] \<or> consumes (last ?tr)")
    case True
    from walk_take_consumed [OF True]
    have w: "walk msk (take k inputValue) = ?tr" by (simp only: k_def)
    have A1: "formatToMask msk (take (inputIndex st) inputValue) =
            Some \<lparr>formatted = formatted st, unformatted = unformatted st\<rparr>"
      unfolding sel by (simp add: formatToMask_walk w)
    have A2: "if inputIndex st = 0 then formatted st = []
              else formatted st \<noteq> []
                 \<and> last (formatted st) = inputValue ! (inputIndex st - 1)"
    proof (cases "k = 0")
      case True
      with consumed_Nil_iff [OF \<open>?tr = [] \<or> consumes (last ?tr)\<close>] have "?tr = []"
        by (simp add: k_def)
      with True show ?thesis by (simp add: sel)
    next
      case False
      with k have ne: "take k inputValue \<noteq> []" by (auto simp: sel)
      have "length (take k inputValue) = k"
        using k by (simp add: sel)
      moreover have "length (filter consumes (walk msk (take k inputValue))) = k"
        unfolding w by (simp only: k_def)
      ultimately have "length (filter consumes (walk msk (take k inputValue))) =
          length (take k inputValue)"
        by simp
      from walk_all_consumed [OF this ne]
      have "?tr \<noteq> []" and "out (last ?tr) = last (take k inputValue)"
        by (simp_all add: w)
      moreover have "last (take k inputValue) = inputValue ! (k - 1)"
        using False k by (intro last_take_nth) (simp_all add: sel)
      ultimately show ?thesis using False by (simp add: last_map sel)
    qed
    from A1 A2 show ?thesis by blast
  next
    case False
    then have ne: "?tr \<noteq> []" and "\<not> consumes (last ?tr)" by simp_all
    from walk_trailing [OF this]
    have "k < length inputValue" and
      "\<exists>i<length msk. \<not> isPlaceholder (msk ! i) \<and> out (last ?tr) = msk ! i \<and>
        \<not> (Suc i < length msk \<and> isPlaceholder (msk ! Suc i))"
      by (simp_all only: k_def)
    with ne have "inputIndex st < length inputValue \<and> formatted st \<noteq> []
          \<and> (\<exists>i<length msk. \<not> isPlaceholder (msk ! i) \<and> last (formatted st) = msk ! i
                \<and> \<not> (Suc i < length msk \<and> isPlaceholder (msk ! Suc i)))"
      by (simp add: sel last_map)
    then show ?thesis by blast
  qed
  have C: "inputIndex st = length inputValue
          \<or> (\<forall>i<length msk. \<not> isPlaceholder (msk ! i) \<longrightarrow>
                Suc i < length msk \<and> isPlaceholder (msk ! Suc i)) \<longrightarrow>
         formatToMask msk (take (inputIndex st) inputValue) =
            Some \<lparr>formatted = formatted st, unformatted = unformatted st\<rparr>
       \<and> (if inputIndex st = 0 then formatted st = []
           else formatted st \<noteq> []
              \<and> last (formatted st) = inputValue ! (inputIndex st - 1))"
  proof (intro impI)
    assume h: "inputIndex st = length inputValue
          \<or> (\<forall>i<length msk. \<not> isPlaceholder (msk ! i) \<longrightarrow>
                Suc i < length msk \<and> isPlaceholder (msk ! Suc i))"
    have "\<not> (inputIndex st < length inputValue \<and> formatted st \<noteq> []
          \<and> (\<exists>i<length msk. \<not> isPlaceholder (msk ! i) \<and> last (formatted st) = msk ! i
                \<and> \<not> (Suc i < length msk \<and> isPlaceholder (msk ! Suc i))))"
      using h by auto
    with D show "formatToMask msk (take (inputIndex st) inputValue) =
            Some \<lparr>formatted = formatted st, unformatted = unformatted st\<rparr>
       \<and> (if inputIndex st = 0 then formatted st = []
           else formatted st \<noteq> []
              \<and> last (formatted st) = inputValue ! (inputIndex st - 1))"
      by blast
  qed
  from l f u k D C show ?thesis by blast
qed

theorem formatted_after_last_consumed_witness:
  "loop ''(999) 999-9999'' [] 0 initial = Some initial
   \<and> formatToMask ''(999) 999-9999'' [] = Some \<lparr>formatted = [], unformatted = []\<rparr>
   \<and> loop ''(999) 999-9999'' ''555'' 0 initial =
       Some \<lparr>formatted = ''(555'', unformatted = ''555'', inputIndex = 3\<rparr>
   \<and> formatToMask ''(999) 999-9999'' (take 3 ''555'') =
       Some \<lparr>formatted = ''(555'', unformatted = ''555''\<rparr>
   \<and> last ''(555'' = ''555'' ! (3 - 1)
   \<and> loop ''99/99/9999'' ''01a'' 0 initial =
       Some \<lparr>formatted = ''01'', unformatted = ''01'', inputIndex = 2\<rparr>
   \<and> formatToMask ''99/99/9999'' (take 2 ''01a'') =
       Some \<lparr>formatted = ''01'', unformatted = ''01''\<rparr>
   \<and> last ''01'' = ''01a'' ! (2 - 1)"
proof -
  have l0: "loop ''(999) 999-9999'' [] 0 initial = Some initial"
    by code_simp
  from formatted_after_last_consumed [of "''(999) 999-9999''" "[]"] l0
  have e: "formatToMask ''(999) 999-9999'' [] = Some \<lparr>formatted = [], unformatted = []\<rparr>"
    by (auto simp: initial_def)
  have l: "loop ''(999) 999-9999'' ''555'' 0 initial =
       Some \<lparr>formatted = ''(555'', unformatted = ''555'', inputIndex = 3\<rparr>"
    by code_simp
  from formatted_after_last_consumed [of "''(999) 999-9999''" "''555''"] l
  have "formatToMask ''(999) 999-9999'' (take 3 ''555'') =
       Some \<lparr>formatted = ''(555'', unformatted = ''555''\<rparr>
   \<and> last ''(555'' = ''555'' ! (3 - 1)"
    by auto
  have l': "loop ''99/99/9999'' ''01a'' 0 initial =
       Some \<lparr>formatted = ''01'', unformatted = ''01'', inputIndex = 2\<rparr>"
    by code_simp
  have "list_all (\<lambda>i. \<not> isPlaceholder (''99/99/9999'' ! i) \<longrightarrow>
      Suc i < length ''99/99/9999'' \<and> isPlaceholder (''99/99/9999'' ! Suc i))
      [0..<length ''99/99/9999'']"
    by code_simp
  then have wf: "\<forall>i<length ''99/99/9999''. \<not> isPlaceholder (''99/99/9999'' ! i) \<longrightarrow>
      Suc i < length ''99/99/9999'' \<and> isPlaceholder (''99/99/9999'' ! Suc i)"
    by (simp only: list_all_upt)
  from formatted_after_last_consumed [of "''99/99/9999''" "''01a''"] obtain st where
    st: "loop ''99/99/9999'' ''01a'' 0 initial = Some st"
      "inputIndex st = length ''01a''
          \<or> (\<forall>i<length ''99/99/9999''. \<not> isPlaceholder (''99/99/9999'' ! i) \<longrightarrow>
                Suc i < length ''99/99/9999'' \<and> isPlaceholder (''99/99/9999'' ! Suc i)) \<longrightarrow>
         formatToMask ''99/99/9999'' (take (inputIndex st) ''01a'') =
            Some \<lparr>formatted = formatted st, unformatted = unformatted st\<rparr>
       \<and> (if inputIndex st = 0 then formatted st = []
           else formatted st \<noteq> []
              \<and> last (formatted st) = ''01a'' ! (inputIndex st - 1))"
    by blast
  from st(1) l' have "st = \<lparr>formatted = ''01'', unformatted = ''01'', inputIndex = 2\<rparr>"
    by simp
  with st(2) wf have w: "formatToMask ''99/99/9999'' (take 2 ''01a'') =
       Some \<lparr>formatted = ''01'', unformatted = ''01''\<rparr>
   \<and> last ''01'' = ''01a'' ! (2 - 1)"
    by simp
  from l0 e l \<open>formatToMask ''(999) 999-9999'' (take 3 ''555'') =
       Some \<lparr>formatted = ''(555'', unformatted = ''555''\<rparr>
   \<and> last ''(555'' = ''555'' ! (3 - 1)\<close> l' w show ?thesis by (intro conjI) blast+
qed

text \<open>
  With unconsumed input left, a literal followed by another literal is appended
  without a look at the placeholder behind them: for the phone mask and the raw input
  \<open>555A\<close> (4 characters for 10 placeholders) the formatted value is \<open>(555)\<close>, which ends
  with an inserted literal and not with the last consumed character, the third \<open>5\<close>.
\<close>

theorem phone_trailing_literal:
  "length ''555A'' < placeholderCount ''(999) 999-9999''
   \<and> loop ''(999) 999-9999'' ''555A'' 0 initial =
       Some \<lparr>formatted = ''(555)'', unformatted = ''555'', inputIndex = 3\<rparr>
   \<and> formatToMask ''(999) 999-9999'' ''555A'' =
       Some \<lparr>formatted = ''(555)'', unformatted = ''555''\<rparr>
   \<and> last ''(555)'' \<noteq> ''555A'' ! (3 - 1)"
  by code_simp




subsection \<open>The key filter\<close>

lemma handleKeyDown_iff:
  "handleKeyDown e \<longleftrightarrow>
     \<not> (ctrlKey e \<or> metaKey e \<or> altKey e \<or> shiftKey e) \<and> key e \<notin> set allowedKeys \<and>
     \<not> list_ex isAlnum (key e)"
  by (simp add: handleKeyDown_def Let_def)

text \<open>
  Claim C8, at the key \<open>Escape\<close> pressed alone. The key is no modifier combination, it is
  not one of the six allowed keys and it is not an alphanumeric character, and the
  handler returns without calling \<open>preventDefault\<close>: the test \<open>/[A-Za-z0-9]/\<close> finds a
  letter in the key's name.
\<close>

theorem handleKeyDown_Escape:
  "\<not> handleKeyDown \<lparr>key = ''Escape'', ctrlKey = False, metaKey = False, altKey = False,
                       shiftKey = False\<rparr>
   \<and> ''Escape'' \<notin> set allowedKeys
   \<and> \<not> (length ''Escape'' = 1 \<and> isAlnum (hd ''Escape''))"
  by (simp add: handleKeyDown_def allowedKeys_def isAlnum_def isLetter_def)

end
